theory Spec2Isabelle
  imports Complex_Main "HOL-Library.Multiset"
begin

section \<open>The likelihood kernels of \<open>cogent3/evolve/_likelihood_tree_numba.py\<close>\<close>

text \<open>
  The module holds three loop kernels over numpy arrays: the node combiner
  \<open>sum_input_likelihoods\<close>, the root aggregator \<open>get_total_log_likelihood_step1\<close> and the
  log aggregator \<open>get_log_sum_across_sites\<close>.

  Modelling decisions.
  \<^item> A one-dimensional array (and the tuple of child matrices) is a list. A two-dimensional
    array is a record of its second shape component and its list of rows; the first shape
    component is the number of rows. numpy arrays are rectangular, which is the predicate
    \<open>wf_array2\<close>.
  \<^item> An element access follows Python indexing: an index \<open>i\<close> into an axis of size \<open>n\<close> is
    accepted when \<open>-n \<le> i < n\<close>, a negative one counting from the end, and raises
    \<open>IndexError\<close> otherwise. (Compiled by numba without bounds checking, an access out of
    range is undefined behaviour; the model is the behaviour of the interpreted source and
    of numba with bounds checking.)
  \<^item> The result buffer is mutated in place; the model passes it as state through the loops.
    The buffer is taken to be a different array from every child matrix, as the values of a
    pure model are.
  \<^item> The combiner and the root aggregator only add and multiply, so they are modelled over
    any element type with these operations, and their theorems are proved for every
    commutative monoid or semiring, the real numbers among them. This is exact arithmetic:
    the rounding of the 64-bit floats of the implementation is not modelled.
  \<^item> The log aggregator needs the values \<open>-inf\<close>, \<open>+inf\<close> and \<open>nan\<close> of IEEE arithmetic,
    which \<open>numpy.log\<close> returns outside the positive numbers. The type \<open>fnum\<close> adds them to
    the real numbers; on finite values its operations are the exact ones.
\<close>

subsection \<open>Errors and loops\<close>

datatype error = IndexError

text \<open>Sequencing of two fallible steps: the first error raised ends the computation.\<close>

definition bind :: "error + 'a \<Rightarrow> ('a \<Rightarrow> error + 'b) \<Rightarrow> error + 'b" where
  "bind m f = (case m of Inl e \<Rightarrow> Inl e | Inr v \<Rightarrow> f v)"

text \<open>\<open>for i in range(...)\<close>, the loop body updating the state or raising.\<close>

fun for_range :: "nat list \<Rightarrow> (nat \<Rightarrow> 's \<Rightarrow> error + 's) \<Rightarrow> 's \<Rightarrow> error + 's" where
  "for_range [] body s = Inr s"
| "for_range (i # is) body s =
     (case body i s of Inl e \<Rightarrow> Inl e | Inr s' \<Rightarrow> for_range is body s')"

subsection \<open>Arrays\<close>

record 'a array2 =
  shape1 :: nat
  rows :: "'a list list"

definition shape0 :: "'a array2 \<Rightarrow> nat" where
  "shape0 a = length (rows a)"

definition wf_array2 :: "'a array2 \<Rightarrow> bool" where
  "wf_array2 a = list_all (\<lambda>r. length r = shape1 a) (rows a)"

definition py_index :: "nat \<Rightarrow> int \<Rightarrow> error + nat" where
  "py_index n i =
     (let j = (if i < 0 then i + int n else i)
      in if 0 \<le> j \<and> j < int n then Inr (nat j) else Inl IndexError)"

definition getitem1 :: "'a list \<Rightarrow> int \<Rightarrow> error + 'a" where
  "getitem1 xs i = bind (py_index (length xs) i) (\<lambda>k. Inr (xs ! k))"

definition getitem2 :: "'a array2 \<Rightarrow> int \<Rightarrow> int \<Rightarrow> error + 'a" where
  "getitem2 a i j =
     bind (py_index (shape0 a) i) (\<lambda>r.
     bind (py_index (shape1 a) j) (\<lambda>c. Inr (rows a ! r ! c)))"

definition setitem2 :: "'a array2 \<Rightarrow> int \<Rightarrow> int \<Rightarrow> 'a \<Rightarrow> error + 'a array2" where
  "setitem2 a i j v =
     bind (py_index (shape0 a) i) (\<lambda>r.
     bind (py_index (shape1 a) j) (\<lambda>c.
       Inr (a\<lparr>rows := (rows a)[r := (rows a ! r)[c := v]]\<rparr>)))"

subsection \<open>The node combiner\<close>

text \<open>
  The two branches of \<open>if child == 0\<close>: the first child is stored into the buffer, every
  later child is multiplied into it (\<open>*=\<close> reads the buffer entry, multiplies, stores).
\<close>

definition sum_input_likelihoods ::
  "int list list \<Rightarrow> 'a::times array2 \<Rightarrow> 'a array2 list \<Rightarrow> error + 'a array2" where
  "sum_input_likelihoods child_indexes result likelihoods =
     (let C = length child_indexes in
      for_range [0..<C] (\<lambda>child result.
        bind (getitem1 child_indexes (int child)) (\<lambda>index.
        bind (getitem1 likelihoods (int child)) (\<lambda>plhs.
          let index_height = length index;
              result_width = shape1 result
          in if child = 0 then
               for_range [0..<index_height] (\<lambda>parent_col result.
                 bind (getitem1 index (int parent_col)) (\<lambda>child_col.
                   for_range [0..<result_width] (\<lambda>motif result.
                     bind (getitem2 plhs child_col (int motif)) (\<lambda>v.
                       setitem2 result (int parent_col) (int motif) v)) result)) result
             else
               for_range [0..<index_height] (\<lambda>parent_col result.
                 bind (getitem1 index (int parent_col)) (\<lambda>child_col.
                   for_range [0..<result_width] (\<lambda>motif result.
                     bind (getitem2 result (int parent_col) (int motif)) (\<lambda>old.
                     bind (getitem2 plhs child_col (int motif)) (\<lambda>v.
                       setitem2 result (int parent_col) (int motif) (old * v)))) result))
                 result))) result)"

subsection \<open>Describing the arrays\<close>

text \<open>
  The vocabulary of the statements. \<open>valid_index\<close> and \<open>norm_index\<close> are the two halves of a
  Python index: whether it is accepted, and the position it denotes. \<open>entry\<close> reads a matrix
  at a position in range. \<open>agrees a P K g\<close> says that \<open>a\<close> is a rectangular \<open>P\<close> by \<open>K\<close>
  matrix whose entries are those of \<open>g\<close>.
\<close>

definition valid_index :: "nat \<Rightarrow> int \<Rightarrow> bool" where
  "valid_index n i = (- int n \<le> i \<and> i < int n)"

definition norm_index :: "nat \<Rightarrow> int \<Rightarrow> nat" where
  "norm_index n i = nat (if i < 0 then i + int n else i)"

definition entry :: "'a array2 \<Rightarrow> nat \<Rightarrow> nat \<Rightarrow> 'a" where
  "entry a r c = rows a ! r ! c"

definition agrees :: "'a array2 \<Rightarrow> nat \<Rightarrow> nat \<Rightarrow> (nat \<Rightarrow> nat \<Rightarrow> 'a) \<Rightarrow> bool" where
  "agrees a P K g =
     (wf_array2 a \<and> shape0 a = P \<and> shape1 a = K \<and> (\<forall>q<P. \<forall>m<K. entry a q m = g q m))"

text \<open>
  The loop nest in pieces, for the proofs: the update of one buffer entry and the pass of one
  child. \<open>first\<close> chooses the branch of \<open>if child == 0\<close>.
\<close>

definition cell_step ::
  "bool \<Rightarrow> 'a::times array2 \<Rightarrow> int \<Rightarrow> nat \<Rightarrow> nat \<Rightarrow> 'a array2 \<Rightarrow> error + 'a array2" where
  "cell_step first plhs child_col parent_col motif result =
     (if first then
        bind (getitem2 plhs child_col (int motif)) (\<lambda>v.
          setitem2 result (int parent_col) (int motif) v)
      else
        bind (getitem2 result (int parent_col) (int motif)) (\<lambda>old.
        bind (getitem2 plhs child_col (int motif)) (\<lambda>v.
          setitem2 result (int parent_col) (int motif) (old * v))))"

definition child_pass ::
  "bool \<Rightarrow> int list \<Rightarrow> 'a::times array2 \<Rightarrow> 'a array2 \<Rightarrow> error + 'a array2" where
  "child_pass first index plhs result =
     for_range [0..<length index] (\<lambda>parent_col result'.
       bind (getitem1 index (int parent_col)) (\<lambda>child_col.
         for_range [0..<shape1 result] (cell_step first plhs child_col parent_col) result'))
       result"

text \<open>
  What the passes compute. \<open>child_entry\<close> is the entry \<open>plhs[index[p], m]\<close> a pass reads;
  \<open>combine\<close> is the value it stores; \<open>combined ci lks g c\<close> is the buffer after the first
  \<open>c\<close> children, started from the contents \<open>g\<close>. A child whose map is shorter than the buffer
  leaves the rows beyond its map as they are.
\<close>

definition child_entry :: "int list \<Rightarrow> 'a array2 \<Rightarrow> nat \<Rightarrow> nat \<Rightarrow> 'a" where
  "child_entry index plhs p m = entry plhs (norm_index (shape0 plhs) (index ! p)) m"

definition combine :: "bool \<Rightarrow> 'a::times \<Rightarrow> 'a \<Rightarrow> 'a" where
  "combine first old v = (if first then v else old * v)"

primrec combined ::
  "int list list \<Rightarrow> 'a::times array2 list \<Rightarrow> (nat \<Rightarrow> nat \<Rightarrow> 'a) \<Rightarrow> nat \<Rightarrow> nat \<Rightarrow> nat \<Rightarrow> 'a" where
  "combined ci lks g 0 = g"
| "combined ci lks g (Suc c) =
     (\<lambda>p m. if p < length (ci ! c)
            then combine (c = 0) (combined ci lks g c p m) (child_entry (ci ! c) (lks ! c) p m)
            else combined ci lks g c p m)"

text \<open>
  The accesses of the loop nest that can fall out of range: the child matrix of a child,
  the row of the child matrix a map value names, the column of the child matrix and the row
  of the buffer. (A column of the buffer and a position of a map are always in range.)
\<close>

definition pass_in_range :: "int list \<Rightarrow> 'a array2 \<Rightarrow> nat \<Rightarrow> nat \<Rightarrow> bool" where
  "pass_in_range index plhs P K =
     (\<forall>p<length index. \<forall>m<K.
        valid_index (shape0 plhs) (index ! p) \<and> m < shape1 plhs \<and> p < P)"

definition accesses_in_range :: "int list list \<Rightarrow> 'a array2 list \<Rightarrow> nat \<Rightarrow> nat \<Rightarrow> bool" where
  "accesses_in_range ci lks P K =
     (\<forall>c<length ci. c < length lks \<and> pass_in_range (ci ! c) (lks ! c) P K)"

text \<open>
  Consistent dimensions: as many child matrices as maps, every map as long as the buffer has
  rows and holding valid row indices of its child matrix, every child matrix as wide as the
  buffer.
\<close>

definition consistent :: "int list list \<Rightarrow> 'a array2 \<Rightarrow> 'a array2 list \<Rightarrow> bool" where
  "consistent child_indexes result likelihoods =
     (wf_array2 result \<and> length likelihoods = length child_indexes \<and>
      (\<forall>c<length child_indexes.
         length (child_indexes ! c) = shape0 result \<and>
         shape1 (likelihoods ! c) = shape1 result \<and>
         (\<forall>p<shape0 result. valid_index (shape0 (likelihoods ! c)) (child_indexes ! c ! p))))"

subsection \<open>The root aggregator\<close>

definition get_total_log_likelihood_step1 ::
  "'a::{zero,plus,times} list \<Rightarrow> 'a list \<Rightarrow> error + 'a" where
  "get_total_log_likelihood_step1 input_likelihoods mprobs =
     for_range [0..<length mprobs] (\<lambda>i res.
       bind (getitem1 input_likelihoods (int i)) (\<lambda>x.
       bind (getitem1 mprobs (int i)) (\<lambda>y. Inr (res + x * y)))) 0"

subsection \<open>The log aggregator\<close>

text \<open>
  The values of a float with exact arithmetic on the finite ones. \<open>flog\<close> is \<open>numpy.log\<close>:
  \<open>-inf\<close> at zero and \<open>nan\<close> at a negative number, raising nothing. The counts are finite
  numbers (integers, or floats holding them).
\<close>

datatype fnum = Finite real | PosInf | NegInf | NaN

fun fadd :: "fnum \<Rightarrow> fnum \<Rightarrow> fnum" where
  "fadd (Finite a) (Finite b) = Finite (a + b)"
| "fadd NaN _ = NaN"
| "fadd _ NaN = NaN"
| "fadd PosInf NegInf = NaN"
| "fadd NegInf PosInf = NaN"
| "fadd PosInf _ = PosInf"
| "fadd _ PosInf = PosInf"
| "fadd NegInf _ = NegInf"
| "fadd _ NegInf = NegInf"

definition fneg :: "fnum \<Rightarrow> fnum" where
  "fneg x = (case x of Finite a \<Rightarrow> Finite (- a) | PosInf \<Rightarrow> NegInf
             | NegInf \<Rightarrow> PosInf | NaN \<Rightarrow> NaN)"

definition fscale :: "fnum \<Rightarrow> real \<Rightarrow> fnum" where
  "fscale x c =
     (case x of
        Finite a \<Rightarrow> Finite (a * c)
      | NaN \<Rightarrow> NaN
      | _ \<Rightarrow> (if c = 0 then NaN else if 0 < c then x else fneg x))"

definition flog :: "fnum \<Rightarrow> fnum" where
  "flog x =
     (case x of
        Finite a \<Rightarrow> (if 0 < a then Finite (ln a) else if a = 0 then NegInf else NaN)
      | PosInf \<Rightarrow> PosInf
      | NegInf \<Rightarrow> NaN
      | NaN \<Rightarrow> NaN)"

definition get_log_sum_across_sites :: "fnum list \<Rightarrow> real list \<Rightarrow> error + fnum" where
  "get_log_sum_across_sites lhs counts =
     (let log_lhs = map flog lhs in
      for_range [0..<length counts] (\<lambda>i res.
        bind (getitem1 log_lhs (int i)) (\<lambda>x.
        bind (getitem1 counts (int i)) (\<lambda>c. Inr (fadd res (fscale x c))))) (Finite 0))"

text \<open>The terms the loop of the log aggregator adds, in the order it adds them.\<close>

definition log_terms :: "fnum list \<Rightarrow> real list \<Rightarrow> nat \<Rightarrow> fnum list" where
  "log_terms lhs counts n = map (\<lambda>i. fscale (flog (lhs ! i)) (counts ! i)) [0..<n]"

section \<open>Properties\<close>

subsection \<open>Basic facts\<close>

lemma bind_Inr [simp]: "bind (Inr v) f = f v"
  by (simp add: bind_def)

lemma bind_Inl [simp]: "bind (Inl e) f = Inl e"
  by (simp add: bind_def)

lemma error_is_IndexError: "(e::error) = IndexError"
  by (cases e) simp

lemma py_index_nat [simp]: "py_index n (int k) = (if k < n then Inr k else Inl IndexError)"
  by (simp add: py_index_def)

lemma getitem1_nat [simp]:
  "getitem1 xs (int k) = (if k < length xs then Inr (xs ! k) else Inl IndexError)"
  by (simp add: getitem1_def)

subsection \<open>Loops\<close>

lemma for_range_append:
  "for_range (xs @ ys) body s = bind (for_range xs body s) (for_range ys body)"
  by (induction xs arbitrary: s) (auto split: sum.splits)

lemma for_range_single: "for_range [i] body = body i"
  by (rule ext) (simp split: sum.splits)

lemma for_range_upt_Suc:
  "for_range [0..<Suc n] body s = bind (for_range [0..<n] body s) (body n)"
  by (simp add: for_range_append for_range_single)

subsection \<open>No children\<close>

text \<open>
  C9. Called with no child (the first dimension of \<open>child_indexes\<close> is 0), the combiner
  raises nothing and returns the buffer it was given, every entry as it was.
\<close>

theorem sum_input_likelihoods_no_children:
  "sum_input_likelihoods [] result likelihoods = Inr result"
  by (simp add: sum_input_likelihoods_def)

subsection \<open>The combiner, loop by loop\<close>

lemma sum_input_likelihoods_passes:
  "sum_input_likelihoods child_indexes result likelihoods =
     for_range [0..<length child_indexes] (\<lambda>child result.
       bind (getitem1 child_indexes (int child)) (\<lambda>index.
       bind (getitem1 likelihoods (int child)) (\<lambda>plhs.
         child_pass (child = 0) index plhs result))) result"
proof -
  have "(if first then
           for_range [0..<length index] (\<lambda>parent_col result'.
             bind (getitem1 index (int parent_col)) (\<lambda>child_col.
               for_range [0..<shape1 r] (\<lambda>motif result''.
                 bind (getitem2 plhs child_col (int motif)) (\<lambda>v.
                   setitem2 result'' (int parent_col) (int motif) v)) result')) r
         else
           for_range [0..<length index] (\<lambda>parent_col result'.
             bind (getitem1 index (int parent_col)) (\<lambda>child_col.
               for_range [0..<shape1 r] (\<lambda>motif result''.
                 bind (getitem2 result'' (int parent_col) (int motif)) (\<lambda>old.
                 bind (getitem2 plhs child_col (int motif)) (\<lambda>v.
                   setitem2 result'' (int parent_col) (int motif) (old * v)))) result')) r)
        = child_pass first index plhs r"
    for first index and plhs r :: "'a array2"
  proof -
    have "cell_step True plhs child_col parent_col = (\<lambda>motif result''.
            bind (getitem2 plhs child_col (int motif)) (\<lambda>v.
              setitem2 result'' (int parent_col) (int motif) v))"
      and "cell_step False plhs child_col parent_col = (\<lambda>motif result''.
            bind (getitem2 result'' (int parent_col) (int motif)) (\<lambda>old.
            bind (getitem2 plhs child_col (int motif)) (\<lambda>v.
              setitem2 result'' (int parent_col) (int motif) (old * v))))"
      for child_col parent_col
      by (rule ext, rule ext, simp only: cell_step_def if_True if_False)+
    then show ?thesis
      by (cases first) (simp_all only: child_pass_def if_True if_False)
  qed
  then show ?thesis
    by (simp only: sum_input_likelihoods_def Let_def)
qed

lemma py_index_valid:
  "py_index n i = (if valid_index n i then Inr (norm_index n i) else Inl IndexError)"
  by (auto simp: py_index_def valid_index_def norm_index_def Let_def)

lemma norm_index_less: "valid_index n i \<Longrightarrow> norm_index n i < n"
  by (auto simp: valid_index_def norm_index_def)

lemma getitem2_read:
  "getitem2 a i (int m) =
     (if valid_index (shape0 a) i \<and> m < shape1 a
      then Inr (entry a (norm_index (shape0 a) i) m) else Inl IndexError)"
  by (cases "valid_index (shape0 a) i")
     (simp_all add: getitem2_def entry_def py_index_valid [of _ i])

lemma agrees_cong:
  "agrees a P K g \<Longrightarrow> (\<And>q m. q < P \<Longrightarrow> m < K \<Longrightarrow> g q m = g' q m) \<Longrightarrow> agrees a P K g'"
  by (simp add: agrees_def)

lemma getitem2_agrees:
  "agrees s P K g \<Longrightarrow> p < P \<Longrightarrow> m < K \<Longrightarrow> getitem2 s (int p) (int m) = Inr (g p m)"
  by (simp add: agrees_def getitem2_def entry_def)

lemma getitem2_row_out:
  "shape0 s = P \<Longrightarrow> \<not> p < P \<Longrightarrow> getitem2 s (int p) j = Inl IndexError"
  by (simp add: getitem2_def)

lemma setitem2_row_out:
  "shape0 s = P \<Longrightarrow> \<not> p < P \<Longrightarrow> setitem2 s (int p) j v = Inl IndexError"
  by (simp add: setitem2_def)

lemma setitem2_agrees:
  assumes "agrees s P K g" and "p < P" and "m < K"
  shows "\<exists>s'. setitem2 s (int p) (int m) v = Inr s' \<and>
              agrees s' P K (\<lambda>q n. if q = p \<and> n = m then v else g q n)"
proof -
  let ?s' = "s\<lparr>rows := (rows s)[p := (rows s ! p)[m := v]]\<rparr>"
  from assms have wf: "wf_array2 s" and P: "length (rows s) = P" and K: "shape1 s = K"
    and g: "\<And>q n. q < P \<Longrightarrow> n < K \<Longrightarrow> rows s ! q ! n = g q n"
    by (simp_all add: agrees_def shape0_def entry_def)
  have len: "length (rows s ! q) = K" if "q < P" for q
    using wf P K that by (simp add: wf_array2_def list_all_length)
  have "setitem2 s (int p) (int m) v = Inr ?s'"
    using assms P K by (simp add: setitem2_def shape0_def)
  moreover have "length ((rows s)[p := (rows s ! p)[m := v]] ! q) = K" if "q < P" for q
    using that len [of q] len [of p] P by (cases "q = p") simp_all
  then have "wf_array2 ?s'"
    using P K by (simp add: wf_array2_def list_all_length)
  moreover have "entry ?s' q n = (if q = p \<and> n = m then v else g q n)"
    if "q < P" "n < K" for q n
    using that g P len [of p] assms(2) by (auto simp: entry_def nth_list_update)
  ultimately show ?thesis
    using P K by (auto simp: agrees_def shape0_def)
qed

text \<open>
  A loop whose body fails at an iteration exactly when \<open>ok\<close> is false there, and keeps the
  invariant \<open>I\<close> otherwise, returns exactly when \<open>ok\<close> holds throughout.
\<close>

lemma for_range_char:
  assumes "I 0 s"
    and "\<And>i s. i < n \<Longrightarrow> I i s \<Longrightarrow>
           (if ok i then \<exists>s'. body i s = Inr s' \<and> I (Suc i) s' else \<exists>e. body i s = Inl e)"
  shows "if (\<forall>i<n. ok i) then \<exists>s'. for_range [0..<n] body s = Inr s' \<and> I n s'
         else \<exists>e. for_range [0..<n] body s = Inl e"
  using assms(2)
proof (induction n)
  case 0
  show ?case using assms(1) by simp
next
  case (Suc n)
  have IH: "if (\<forall>i<n. ok i) then \<exists>s'. for_range [0..<n] body s = Inr s' \<and> I n s'
            else \<exists>e. for_range [0..<n] body s = Inl e"
    by (rule Suc.IH) (simp add: Suc.prems)
  show ?case
  proof (cases "\<forall>i<n. ok i")
    case True
    with IH obtain s' where s': "for_range [0..<n] body s = Inr s'" "I n s'" by auto
    from Suc.prems [of n s'] s'(2)
    have "if ok n then \<exists>s''. body n s' = Inr s'' \<and> I (Suc n) s'' else \<exists>e. body n s' = Inl e"
      by simp
    then show ?thesis
      using True s'(1) by (auto simp: for_range_upt_Suc less_Suc_eq simp del: upt_Suc)
  next
    case False
    with IH obtain e where "for_range [0..<n] body s = Inl e" by auto
    then show ?thesis
      using False by (auto simp: for_range_upt_Suc less_Suc_eq simp del: upt_Suc)
  qed
qed

lemma cell_step_char:
  assumes "agrees s P K g" and "m < K"
  shows "if valid_index (shape0 plhs) cc \<and> m < shape1 plhs \<and> p < P
         then \<exists>s'. cell_step first plhs cc p m s = Inr s' \<and>
                agrees s' P K (\<lambda>q n. if q = p \<and> n = m
                  then combine first (g p m) (entry plhs (norm_index (shape0 plhs) cc) m)
                  else g q n)
         else \<exists>e. cell_step first plhs cc p m s = Inl e"
proof (cases "p < P")
  case False
  from assms(1) have "shape0 s = P" by (simp add: agrees_def)
  then show ?thesis
    using False
    by (simp add: cell_step_def getitem2_read [of plhs] setitem2_row_out getitem2_row_out)
next
  case True
  note rd = getitem2_agrees [OF assms(1) True assms(2)]
  let ?e = "entry plhs (norm_index (shape0 plhs) cc) m"
  let ?v = "combine first (g p m) ?e"
  from setitem2_agrees [OF assms(1) True assms(2), of ?v]
  obtain s' where wr: "setitem2 s (int p) (int m) ?v = Inr s'"
    and ag: "agrees s' P K (\<lambda>q n. if q = p \<and> n = m then ?v else g q n)"
    by blast
  show ?thesis
  proof (cases "valid_index (shape0 plhs) cc \<and> m < shape1 plhs")
    case False
    then show ?thesis
      by (auto simp: cell_step_def getitem2_read [of plhs] rd)
  next
    case ok: True
    then have "cell_step first plhs cc p m s = setitem2 s (int p) (int m) ?v"
      by (simp add: cell_step_def getitem2_read [of plhs] rd combine_def)
    then show ?thesis using ok True wr ag by simp
  qed
qed

lemma row_char:
  assumes "agrees s P K g"
  shows "if (\<forall>m<K. valid_index (shape0 plhs) cc \<and> m < shape1 plhs \<and> p < P)
         then \<exists>s'. for_range [0..<K] (cell_step first plhs cc p) s = Inr s' \<and>
                agrees s' P K (\<lambda>q n. if q = p
                  then combine first (g p n) (entry plhs (norm_index (shape0 plhs) cc) n)
                  else g q n)
         else \<exists>e. for_range [0..<K] (cell_step first plhs cc p) s = Inl e"
proof -
  let ?v = "\<lambda>n. combine first (g p n) (entry plhs (norm_index (shape0 plhs) cc) n)"
  let ?I = "\<lambda>k s'. agrees s' P K (\<lambda>q n. if q = p \<and> n < k then ?v n else g q n)"
  let ?ok = "\<lambda>m. valid_index (shape0 plhs) cc \<and> m < shape1 plhs \<and> p < P"
  have step: "if ?ok m then \<exists>s''. cell_step first plhs cc p m s' = Inr s'' \<and> ?I (Suc m) s''
              else \<exists>e. cell_step first plhs cc p m s' = Inl e"
    if "m < K" "?I m s'" for m s'
  proof (cases "?ok m")
    case False
    then show ?thesis using cell_step_char [OF that(2) that(1), of plhs cc p first] by auto
  next
    case True
    with cell_step_char [OF that(2) that(1), of plhs cc p first]
    obtain s'' where s'': "cell_step first plhs cc p m s' = Inr s''"
      and ag: "agrees s'' P K (\<lambda>q n. if q = p \<and> n = m
                  then combine first (if p = p \<and> m < m then ?v m else g p m)
                         (entry plhs (norm_index (shape0 plhs) cc) m)
                  else (if q = p \<and> n < m then ?v n else g q n))"
      by auto
    have "?I (Suc m) s''"
      by (rule agrees_cong [OF ag]) (auto simp: less_Suc_eq)
    then show ?thesis using True s'' by simp
  qed
  have "?I 0 s" using assms by simp
  from for_range_char [of ?I s K ?ok "cell_step first plhs cc p", OF this step]
  have res: "if (\<forall>m<K. ?ok m)
        then \<exists>s'. for_range [0..<K] (cell_step first plhs cc p) s = Inr s' \<and> ?I K s'
        else \<exists>e. for_range [0..<K] (cell_step first plhs cc p) s = Inl e"
    by blast
  show ?thesis
  proof (cases "\<forall>m<K. ?ok m")
    case False
    then show ?thesis using res by auto
  next
    case True
    with res obtain s' where s': "for_range [0..<K] (cell_step first plhs cc p) s = Inr s'"
      and ag: "?I K s'" by auto
    have "agrees s' P K (\<lambda>q n. if q = p then ?v n else g q n)"
      by (rule agrees_cong [OF ag]) simp
    then show ?thesis using True s' by auto
  qed
qed

lemma child_pass_char:
  assumes "agrees s P K g"
  shows "if pass_in_range index plhs P K
         then \<exists>s'. child_pass first index plhs s = Inr s' \<and>
                agrees s' P K (\<lambda>q n. if q < length index
                  then combine first (g q n) (child_entry index plhs q n) else g q n)
         else \<exists>e. child_pass first index plhs s = Inl e"
proof -
  let ?v = "\<lambda>q n. combine first (g q n) (child_entry index plhs q n)"
  let ?I = "\<lambda>j s'. agrees s' P K (\<lambda>q n. if q < j then ?v q n else g q n)"
  let ?ok = "\<lambda>p. \<forall>m<K. valid_index (shape0 plhs) (index ! p) \<and> m < shape1 plhs \<and> p < P"
  let ?body = "\<lambda>parent_col result'.
       bind (getitem1 index (int parent_col)) (\<lambda>child_col.
         for_range [0..<K] (cell_step first plhs child_col parent_col) result')"
  from assms have K: "shape1 s = K" by (simp add: agrees_def)
  have step: "if ?ok p then \<exists>s''. ?body p s' = Inr s'' \<and> ?I (Suc p) s''
              else \<exists>e. ?body p s' = Inl e"
    if "p < length index" "?I p s'" for p s'
  proof -
    have body: "?body p s' = for_range [0..<K] (cell_step first plhs (index ! p) p) s'"
      using that(1) by simp
    note row = row_char [OF that(2), of plhs "index ! p" p first]
    show ?thesis
    proof (cases "?ok p")
      case False
      then show ?thesis using row body by auto
    next
      case True
      with row obtain s'' where s'': "for_range [0..<K] (cell_step first plhs (index ! p) p) s' = Inr s''"
        and ag: "agrees s'' P K (\<lambda>q n. if q = p
                  then combine first (if p < p then ?v p n else g p n)
                         (entry plhs (norm_index (shape0 plhs) (index ! p)) n)
                  else (if q < p then ?v q n else g q n))"
        by auto
      have "?I (Suc p) s''"
        by (rule agrees_cong [OF ag]) (auto simp: less_Suc_eq child_entry_def)
      then show ?thesis using True s'' body by simp
    qed
  qed
  have "?I 0 s" using assms by simp
  from for_range_char [of ?I s "length index" ?ok ?body, OF this step]
  have "if (\<forall>p<length index. ?ok p)
        then \<exists>s'. for_range [0..<length index] ?body s = Inr s' \<and> ?I (length index) s'
        else \<exists>e. for_range [0..<length index] ?body s = Inl e"
    by blast
  then show ?thesis
    unfolding child_pass_def K pass_in_range_def .
qed

lemma sum_input_likelihoods_char:
  fixes result :: "'a::times array2"
  assumes "agrees result P K g"
  shows "if accesses_in_range ci lks P K
         then \<exists>r. sum_input_likelihoods ci result lks = Inr r \<and>
                agrees r P K (combined ci lks g (length ci))
         else \<exists>e. sum_input_likelihoods ci result lks = Inl e"
proof -
  let ?I = "\<lambda>c s. agrees s P K (combined ci lks g c)"
  let ?ok = "\<lambda>c. c < length lks \<and> pass_in_range (ci ! c) (lks ! c) P K"
  let ?body = "\<lambda>child result.
       bind (getitem1 ci (int child)) (\<lambda>index.
       bind (getitem1 lks (int child)) (\<lambda>plhs.
         child_pass (child = 0) index plhs result))"
  have step: "if ?ok c then \<exists>s'. ?body c s = Inr s' \<and> ?I (Suc c) s'
              else \<exists>e. ?body c s = Inl e"
    if "c < length ci" "?I c s" for c s
  proof (cases "c < length lks")
    case False
    then show ?thesis using that(1) by simp
  next
    case True
    then have body: "?body c s = child_pass (c = 0) (ci ! c) (lks ! c) s"
      using that(1) by simp
    show ?thesis
      using child_pass_char [OF that(2), of "ci ! c" "lks ! c" "c = 0"] True
      unfolding body by simp
  qed
  have "?I 0 result" using assms by simp
  from for_range_char [of ?I result "length ci" ?ok ?body, OF this step]
  show ?thesis
    unfolding sum_input_likelihoods_passes accesses_in_range_def by blast
qed

subsection \<open>The combiner on consistent dimensions\<close>

lemma agrees_entry: "wf_array2 a \<Longrightarrow> agrees a (shape0 a) (shape1 a) (entry a)"
  by (simp add: agrees_def)

lemma agrees_unique:
  fixes a b :: "'a array2"
  assumes "agrees a P K g" and "agrees b P K g"
  shows "a = b"
proof -
  from assms have len: "length (rows a) = P" "length (rows b) = P"
    and K: "shape1 a = K" "shape1 b = K"
    and wf: "wf_array2 a" "wf_array2 b"
    and eq: "\<And>q m. q < P \<Longrightarrow> m < K \<Longrightarrow> rows a ! q ! m = rows b ! q ! m"
    by (simp_all add: agrees_def shape0_def entry_def)
  have "rows a = rows b"
  proof (rule nth_equalityI)
    show "length (rows a) = length (rows b)" using len by simp
  next
    fix q
    assume "q < length (rows a)"
    then have q: "q < P" using len by simp
    then have "length (rows a ! q) = K" "length (rows b ! q) = K"
      using wf len K by (simp_all add: wf_array2_def list_all_length)
    then show "rows a ! q = rows b ! q"
      using eq [OF q] by (simp add: nth_equalityI)
  qed
  then show ?thesis using K by simp
qed

lemma consistent_in_range:
  "consistent ci result lks \<Longrightarrow> accesses_in_range ci lks (shape0 result) (shape1 result)"
  by (simp add: consistent_def accesses_in_range_def pass_in_range_def)

lemma combined_product:
  fixes lks :: "'a::comm_monoid_mult array2 list"
  assumes "\<forall>c\<le>n. p < length (ci ! c)"
  shows "combined ci lks g (Suc n) p m = (\<Prod>c<Suc n. child_entry (ci ! c) (lks ! c) p m)"
  using assms
proof (induction n)
  case 0
  then show ?case by (simp add: combine_def)
next
  case (Suc n)
  then have "combined ci lks g (Suc n) p m = (\<Prod>c<Suc n. child_entry (ci ! c) (lks ! c) p m)"
    by simp
  moreover have "p < length (ci ! Suc n)" using Suc.prems by simp
  ultimately show ?case
    by (simp add: combine_def)
qed

lemma combined_overwritten:
  assumes "p < length (ci ! 0)"
  shows "combined ci lks g (Suc n) p m = combined ci lks g' (Suc n) p m"
proof (induction n)
  case 0
  show ?case using assms by (simp add: combine_def)
next
  case (Suc n)
  then show ?case by simp
qed

lemma sum_input_likelihoods_consistent:
  fixes result :: "'a::comm_monoid_mult array2"
  assumes "consistent ci result lks" and "1 \<le> length ci"
  shows "\<exists>r. sum_input_likelihoods ci result lks = Inr r \<and>
             agrees r (shape0 result) (shape1 result)
               (\<lambda>p m. \<Prod>c<length ci. child_entry (ci ! c) (lks ! c) p m)"
proof -
  let ?P = "shape0 result" and ?K = "shape1 result"
  from assms(1) have wf: "wf_array2 result" by (simp add: consistent_def)
  from sum_input_likelihoods_char [OF agrees_entry [OF wf], of ci lks]
    consistent_in_range [OF assms(1)]
  obtain r where r: "sum_input_likelihoods ci result lks = Inr r"
    and ag: "agrees r ?P ?K (combined ci lks (entry result) (length ci))"
    by auto
  from assms(2) obtain n where n: "length ci = Suc n" by (cases "length ci") simp_all
  have "agrees r ?P ?K (\<lambda>p m. \<Prod>c<length ci. child_entry (ci ! c) (lks ! c) p m)"
  proof (rule agrees_cong [OF ag])
    fix p m
    assume "p < ?P" "m < ?K"
    then have "\<forall>c\<le>n. p < length (ci ! c)"
      using assms(1) n by (simp add: consistent_def)
    from combined_product [OF this]
    show "combined ci lks (entry result) (length ci) p m
        = (\<Prod>c<length ci. child_entry (ci ! c) (lks ! c) p m)"
      unfolding n .
  qed
  with r show ?thesis by blast
qed

text \<open>
  C1. With at least one child, every map as long as the buffer has rows, and every map value
  a valid row index of its child matrix (the dimensions being consistent: one matrix per
  map, each as wide as the buffer), the combiner returns a matrix of the buffer's shape with
  \<open>result[p, m] = \<Prod>c. likelihoods[c][child_indexes[c][p], m]\<close> for every row \<open>p\<close> and column
  \<open>m\<close>. The first child is stored, not multiplied: the product has no factor from the
  buffer's former contents. Every later child contributes one factor.
\<close>

theorem sum_input_likelihoods_product:
  fixes result :: "'a::comm_monoid_mult array2"
  assumes "1 \<le> length child_indexes"
    and "length likelihoods = length child_indexes"
    and "wf_array2 result"
    and "\<forall>c<length child_indexes. length (child_indexes ! c) = shape0 result"
    and "\<forall>c<length child_indexes. shape1 (likelihoods ! c) = shape1 result"
    and "\<forall>c<length child_indexes. \<forall>p<shape0 result.
           valid_index (shape0 (likelihoods ! c)) (child_indexes ! c ! p)"
  shows "\<exists>r. sum_input_likelihoods child_indexes result likelihoods = Inr r \<and>
             wf_array2 r \<and> shape0 r = shape0 result \<and> shape1 r = shape1 result \<and>
             (\<forall>p<shape0 result. \<forall>m<shape1 result.
                entry r p m =
                  (\<Prod>c<length child_indexes.
                     child_entry (child_indexes ! c) (likelihoods ! c) p m))"
proof -
  have "consistent child_indexes result likelihoods"
    using assms by (simp add: consistent_def)
  from sum_input_likelihoods_consistent [OF this assms(1)]
  show ?thesis by (simp add: agrees_def)
qed

theorem sum_input_likelihoods_product_witness:
  "1 \<le> length [[0, 1], [1, - 1 :: int]] \<and>
   length [\<lparr>shape1 = 2, rows = [[1, 2], [3, 4 :: real]]\<rparr>,
           \<lparr>shape1 = 2, rows = [[5, 6], [7, 8]]\<rparr>] = length [[0, 1], [1, - 1 :: int]] \<and>
   wf_array2 \<lparr>shape1 = 2, rows = [[9, 9], [9, 9 :: real]]\<rparr> \<and>
   sum_input_likelihoods [[0, 1], [1, - 1]]
     \<lparr>shape1 = 2, rows = [[9, 9], [9, 9 :: real]]\<rparr>
     [\<lparr>shape1 = 2, rows = [[1, 2], [3, 4]]\<rparr>, \<lparr>shape1 = 2, rows = [[5, 6], [7, 8]]\<rparr>]
   = Inr \<lparr>shape1 = 2, rows = [[1 * 7, 2 * 8], [3 * 7, 4 * 8]]\<rparr> \<and>
   entry \<lparr>shape1 = 2, rows = [[1 * 7, 2 * 8], [3 * 7, 4 * 8 :: real]]\<rparr> 1 0 =
     (\<Prod>c<length [[0, 1], [1, - 1 :: int]].
        child_entry ([[0, 1], [1, - 1]] ! c)
          ([\<lparr>shape1 = 2, rows = [[1, 2], [3, 4]]\<rparr>,
            \<lparr>shape1 = 2, rows = [[5, 6], [7, 8]]\<rparr>] ! c) 1 0)"
proof -
  let ?ci = "[[0, 1], [1, - 1 :: int]]"
  let ?res = "\<lparr>shape1 = 2, rows = [[9, 9], [9, 9 :: real]]\<rparr>"
  let ?lks = "[\<lparr>shape1 = 2, rows = [[1, 2], [3, 4 :: real]]\<rparr>,
               \<lparr>shape1 = 2, rows = [[5, 6], [7, 8]]\<rparr>]"
  have h1: "1 \<le> length ?ci" and h2: "length ?lks = length ?ci" and h3: "wf_array2 ?res"
    by (simp_all add: wf_array2_def)
  have h4: "\<forall>c<length ?ci. length (?ci ! c) = shape0 ?res"
    and h5: "\<forall>c<length ?ci. shape1 (?lks ! c) = shape1 ?res"
    and h6: "\<forall>c<length ?ci. \<forall>p<shape0 ?res. valid_index (shape0 (?lks ! c)) (?ci ! c ! p)"
    by (simp_all add: shape0_def valid_index_def less_Suc_eq)
  have ev: "sum_input_likelihoods ?ci ?res ?lks
      = Inr \<lparr>shape1 = 2, rows = [[1 * 7, 2 * 8], [3 * 7, 4 * 8]]\<rparr>"
    by code_simp
  have P: "shape0 ?res = 2" and K: "shape1 ?res = 2"
    by (simp_all add: shape0_def)
  from sum_input_likelihoods_product [OF h1 h2 h3 h4 h5 h6]
  have "\<forall>p<2. \<forall>m<2.
      entry \<lparr>shape1 = 2, rows = [[1 * 7, 2 * 8], [3 * 7, 4 * 8 :: real]]\<rparr> p m =
        (\<Prod>c<length ?ci. child_entry (?ci ! c) (?lks ! c) p m)"
    unfolding ev P K by blast
  then have "entry \<lparr>shape1 = 2, rows = [[1 * 7, 2 * 8], [3 * 7, 4 * 8 :: real]]\<rparr> 1 0 =
        (\<Prod>c<length ?ci. child_entry (?ci ! c) (?lks ! c) 1 0)"
    by simp
  then show ?thesis using h1 h2 h3 ev by blast
qed

text \<open>
  C5. With at least one child whose map (the first one) is as long as the buffer has rows,
  what the combiner returns does not depend on what the buffer held: two buffers of the
  same shape give the same outcome, the same matrix or the same error.
\<close>

theorem sum_input_likelihoods_buffer_independent:
  fixes result1 result2 :: "'a::times array2"
  assumes "1 \<le> length child_indexes"
    and "length (child_indexes ! 0) = shape0 result1"
    and "wf_array2 result1" and "wf_array2 result2"
    and "shape0 result2 = shape0 result1" and "shape1 result2 = shape1 result1"
  shows "sum_input_likelihoods child_indexes result1 likelihoods
       = sum_input_likelihoods child_indexes result2 likelihoods"
proof -
  let ?P = "shape0 result1" and ?K = "shape1 result1"
  let ?ci = child_indexes and ?lks = likelihoods
  have a1: "agrees result1 ?P ?K (entry result1)"
    by (rule agrees_entry [OF assms(3)])
  have a2: "agrees result2 ?P ?K (entry result2)"
    using agrees_entry [OF assms(4)] assms(5,6) by simp
  note c1 = sum_input_likelihoods_char [OF a1, of ?ci ?lks]
  note c2 = sum_input_likelihoods_char [OF a2, of ?ci ?lks]
  show ?thesis
  proof (cases "accesses_in_range ?ci ?lks ?P ?K")
    case False
    with c1 c2 obtain e1 e2 where "sum_input_likelihoods ?ci result1 ?lks = Inl e1"
      "sum_input_likelihoods ?ci result2 ?lks = Inl e2" by auto
    then show ?thesis by (simp add: error_is_IndexError [of e1] error_is_IndexError [of e2])
  next
    case True
    with c1 c2 obtain r1 r2 where r1: "sum_input_likelihoods ?ci result1 ?lks = Inr r1"
      and g1: "agrees r1 ?P ?K (combined ?ci ?lks (entry result1) (length ?ci))"
      and r2: "sum_input_likelihoods ?ci result2 ?lks = Inr r2"
      and g2: "agrees r2 ?P ?K (combined ?ci ?lks (entry result2) (length ?ci))"
      by auto
    from assms(1) obtain n where n: "length ?ci = Suc n" by (cases "length ?ci") simp_all
    have "agrees r2 ?P ?K (combined ?ci ?lks (entry result1) (length ?ci))"
    proof (rule agrees_cong [OF g2])
      fix p m
      assume "p < ?P" "m < ?K"
      then have "p < length (?ci ! 0)" using assms(2) by simp
      from combined_overwritten [OF this]
      show "combined ?ci ?lks (entry result2) (length ?ci) p m
          = combined ?ci ?lks (entry result1) (length ?ci) p m"
        unfolding n .
    qed
    with g1 have "r1 = r2" by (rule agrees_unique)
    with r1 r2 show ?thesis by simp
  qed
qed

theorem sum_input_likelihoods_buffer_independent_witness:
  "1 \<le> length [[0, 1], [1, - 1 :: int]] \<and>
   length ([[0, 1], [1, - 1 :: int]] ! 0) = shape0 \<lparr>shape1 = 2, rows = [[9, 9], [9, 9 :: real]]\<rparr> \<and>
   wf_array2 \<lparr>shape1 = 2, rows = [[9, 9], [9, 9 :: real]]\<rparr> \<and>
   wf_array2 \<lparr>shape1 = 2, rows = [[0, - 1], [2, 3 :: real]]\<rparr> \<and>
   sum_input_likelihoods [[0, 1], [1, - 1]]
     \<lparr>shape1 = 2, rows = [[9, 9], [9, 9 :: real]]\<rparr>
     [\<lparr>shape1 = 2, rows = [[1, 2], [3, 4]]\<rparr>, \<lparr>shape1 = 2, rows = [[5, 6], [7, 8]]\<rparr>]
   = sum_input_likelihoods [[0, 1], [1, - 1]]
     \<lparr>shape1 = 2, rows = [[0, - 1], [2, 3 :: real]]\<rparr>
     [\<lparr>shape1 = 2, rows = [[1, 2], [3, 4]]\<rparr>, \<lparr>shape1 = 2, rows = [[5, 6], [7, 8]]\<rparr>]"
proof -
  let ?ci = "[[0, 1], [1, - 1 :: int]]"
  let ?r1 = "\<lparr>shape1 = 2, rows = [[9, 9], [9, 9 :: real]]\<rparr>"
  let ?r2 = "\<lparr>shape1 = 2, rows = [[0, - 1], [2, 3 :: real]]\<rparr>"
  have h1: "1 \<le> length ?ci" and h2: "length (?ci ! 0) = shape0 ?r1"
    and h3: "wf_array2 ?r1" and h4: "wf_array2 ?r2"
    and h5: "shape0 ?r2 = shape0 ?r1" and h6: "shape1 ?r2 = shape1 ?r1"
    by (simp_all add: wf_array2_def shape0_def)
  from sum_input_likelihoods_buffer_independent [OF h1 h2 h3 h4 h5 h6]
  show ?thesis using h1 h2 h3 h4 by simp
qed

subsection \<open>The order of the children\<close>

lemma prod_list_map_upt:
  fixes f :: "nat \<Rightarrow> 'a::comm_monoid_mult"
  shows "prod_list (map f [0..<n]) = (\<Prod>c<n. f c)"
  using prod.distinct_set_conv_list [of "[0..<n]" f] by (simp add: atLeast0LessThan)

lemma prod_reindex_perm:
  fixes h :: "nat \<Rightarrow> 'a::comm_monoid_mult"
  assumes "mset perm = mset [0..<n]"
  shows "(\<Prod>c<n. h (perm ! c)) = (\<Prod>c<n. h c)"
proof -
  from assms have len: "length perm = n"
    using mset_eq_length by fastforce
  have "(\<Prod>c<n. h (perm ! c)) = prod_list (map (\<lambda>c. h (perm ! c)) [0..<length perm])"
    unfolding len by (rule prod_list_map_upt [symmetric])
  also have "map (\<lambda>c. h (perm ! c)) [0..<length perm] = map h perm"
    by (rule nth_equalityI) simp_all
  also have "prod_list (map h perm) = prod_mset (image_mset h (mset perm))"
    by (simp only: prod_mset_prod_list [symmetric] mset_map)
  also have "\<dots> = prod_mset (image_mset h (mset [0..<n]))"
    by (simp only: assms)
  also have "\<dots> = prod_list (map h [0..<n])"
    by (simp only: prod_mset_prod_list [symmetric] mset_map)
  also have "\<dots> = (\<Prod>c<n. h c)"
    by (rule prod_list_map_upt)
  finally show ?thesis .
qed

text \<open>
  C6. The combiner is commutative in its children: on consistent dimensions, applying one
  permutation to the index maps and to the child matrices leaves the returned matrix as it
  is. The permutation is the list \<open>perm\<close> of the positions \<open>0, \<dots>, C - 1\<close> in their new order.
  The equality is exact in a commutative monoid, so for real numbers; the rounding of floats
  is outside the model.
\<close>

theorem sum_input_likelihoods_commutative:
  fixes result :: "'a::comm_monoid_mult array2"
  assumes "consistent child_indexes result likelihoods"
    and "mset perm = mset [0..<length child_indexes]"
  shows "sum_input_likelihoods (map ((!) child_indexes) perm) result (map ((!) likelihoods) perm)
       = sum_input_likelihoods child_indexes result likelihoods"
proof (cases "length child_indexes = 0")
  case True
  with assms(2) have "perm = []" by simp
  with True show ?thesis by (simp add: sum_input_likelihoods_def)
next
  case False
  let ?ci = child_indexes and ?lks = likelihoods
  let ?ci' = "map ((!) child_indexes) perm" and ?lks' = "map ((!) likelihoods) perm"
  let ?P = "shape0 result" and ?K = "shape1 result"
  let ?C = "length child_indexes"
  from assms(2) have len: "length perm = ?C"
    using mset_eq_length by fastforce
  from assms(2) have "set perm = set [0..<?C]" by (rule mset_eq_setD)
  then have inb: "perm ! c < ?C" if "c < ?C" for c
    using that len by (metis atLeastLessThan_iff nth_mem set_upt)
  have cons': "consistent ?ci' result ?lks'"
    using assms(1) len inb by (simp add: consistent_def)
  from False have C1: "1 \<le> ?C" by (cases child_indexes) simp_all
  then have C1': "1 \<le> length ?ci'" using len by simp
  from sum_input_likelihoods_consistent [OF assms(1) C1]
  obtain r where r: "sum_input_likelihoods ?ci result ?lks = Inr r"
    and ag: "agrees r ?P ?K (\<lambda>p m. \<Prod>c<?C. child_entry (?ci ! c) (?lks ! c) p m)"
    by blast
  from sum_input_likelihoods_consistent [OF cons' C1']
  obtain r' where r': "sum_input_likelihoods ?ci' result ?lks' = Inr r'"
    and ag': "agrees r' ?P ?K (\<lambda>p m. \<Prod>c<?C. child_entry (?ci' ! c) (?lks' ! c) p m)"
    using len by auto
  have "agrees r' ?P ?K (\<lambda>p m. \<Prod>c<?C. child_entry (?ci ! c) (?lks ! c) p m)"
  proof (rule agrees_cong [OF ag'])
    fix p m
    have "(\<Prod>c<?C. child_entry (?ci' ! c) (?lks' ! c) p m)
        = (\<Prod>c<?C. child_entry (?ci ! (perm ! c)) (?lks ! (perm ! c)) p m)"
      using len by (intro prod.cong) simp_all
    also have "\<dots> = (\<Prod>c<?C. child_entry (?ci ! c) (?lks ! c) p m)"
      by (rule prod_reindex_perm [OF assms(2), of "\<lambda>c. child_entry (?ci ! c) (?lks ! c) p m"])
    finally show "(\<Prod>c<?C. child_entry (?ci' ! c) (?lks' ! c) p m)
        = (\<Prod>c<?C. child_entry (?ci ! c) (?lks ! c) p m)" .
  qed
  with ag have "r = r'" by (rule agrees_unique)
  with r r' show ?thesis by simp
qed

theorem sum_input_likelihoods_commutative_witness:
  "mset [1, 0] = mset [0..<length [[0, 1], [1, - 1 :: int]]] \<and>
   sum_input_likelihoods (map ((!) [[0, 1], [1, - 1]]) [1, 0])
     \<lparr>shape1 = 2, rows = [[9, 9], [9, 9 :: real]]\<rparr>
     (map ((!) [\<lparr>shape1 = 2, rows = [[1, 2], [3, 4]]\<rparr>,
                \<lparr>shape1 = 2, rows = [[5, 6], [7, 8]]\<rparr>]) [1, 0])
   = sum_input_likelihoods [[0, 1], [1, - 1]]
     \<lparr>shape1 = 2, rows = [[9, 9], [9, 9 :: real]]\<rparr>
     [\<lparr>shape1 = 2, rows = [[1, 2], [3, 4]]\<rparr>, \<lparr>shape1 = 2, rows = [[5, 6], [7, 8]]\<rparr>]"
proof -
  let ?ci = "[[0, 1], [1, - 1 :: int]]"
  let ?res = "\<lparr>shape1 = 2, rows = [[9, 9], [9, 9 :: real]]\<rparr>"
  let ?lks = "[\<lparr>shape1 = 2, rows = [[1, 2], [3, 4 :: real]]\<rparr>,
               \<lparr>shape1 = 2, rows = [[5, 6], [7, 8]]\<rparr>]"
  have h1: "consistent ?ci ?res ?lks"
    by (simp add: consistent_def wf_array2_def shape0_def valid_index_def less_Suc_eq)
  have h2: "mset [1, 0] = mset [0..<length ?ci]"
    by (simp add: numeral_2_eq_2)
  from sum_input_likelihoods_commutative [OF h1 h2]
  show ?thesis using h2 by blast
qed

subsection \<open>Inconsistent dimensions\<close>

text \<open>
  C7 says that inconsistent dimensions raise an error and that no result is computed. The
  source checks no shape. Here one map meets two child matrices, the map has one position
  for a buffer of two rows, and the child matrices have two and three columns for a buffer of
  one: the call returns, the second row of the buffer as it was.
\<close>

theorem sum_input_likelihoods_mismatch_counterexample:
  "length [[0 :: int]] = 1 \<and>
   length [\<lparr>shape1 = 2, rows = [[7, 8 :: real]]\<rparr>, \<lparr>shape1 = 3, rows = [[1, 1, 1]]\<rparr>] = 2 \<and>
   length ([[0 :: int]] ! 0) = 1 \<and>
   shape0 \<lparr>shape1 = 1, rows = [[5], [6 :: real]]\<rparr> = 2 \<and>
   shape1 \<lparr>shape1 = 1, rows = [[5], [6 :: real]]\<rparr> = 1 \<and>
   shape1 ([\<lparr>shape1 = 2, rows = [[7, 8 :: real]]\<rparr>, \<lparr>shape1 = 3, rows = [[1, 1, 1]]\<rparr>] ! 0) = 2 \<and>
   sum_input_likelihoods [[0]] \<lparr>shape1 = 1, rows = [[5], [6 :: real]]\<rparr>
     [\<lparr>shape1 = 2, rows = [[7, 8]]\<rparr>, \<lparr>shape1 = 3, rows = [[1, 1, 1]]\<rparr>]
   = Inr \<lparr>shape1 = 1, rows = [[7], [6]]\<rparr>"
  by code_simp

lemma combined_untouched:
  assumes "\<forall>c<n. length (ci ! c) \<le> p"
  shows "combined ci lks g n p m = g p m"
  using assms
proof (induction n)
  case 0
  show ?case by simp
next
  case (Suc n)
  then have "length (ci ! n) \<le> p" and "combined ci lks g n p m = g p m" by simp_all
  then show ?case by simp
qed

text \<open>
  C7, as the code has it. No dimension is validated and no shape error exists. Whenever
  every element access of the loops is in range, and so with more child matrices than maps,
  with maps shorter than the buffer has rows and with child matrices wider than the buffer,
  nothing is raised and a matrix of the buffer's shape is returned. The surplus matrices and
  columns are never read. Each child updates the rows its map covers, the first child by
  storing and a later one by multiplying, and leaves the other rows as they are: a row no
  map covers keeps its value, and a row every map covers holds the product over the
  children. What an access out of range does is left open.
\<close>

theorem sum_input_likelihoods_unchecked:
  fixes result :: "'a::comm_monoid_mult array2"
  assumes "wf_array2 result"
    and "accesses_in_range child_indexes likelihoods (shape0 result) (shape1 result)"
  shows "\<exists>r. sum_input_likelihoods child_indexes result likelihoods = Inr r \<and>
             wf_array2 r \<and> shape0 r = shape0 result \<and> shape1 r = shape1 result \<and>
             (\<forall>p<shape0 result. \<forall>m<shape1 result.
                entry r p m
                  = combined child_indexes likelihoods (entry result) (length child_indexes) p m \<and>
                ((\<forall>c<length child_indexes. length (child_indexes ! c) \<le> p) \<longrightarrow>
                   entry r p m = entry result p m) \<and>
                (1 \<le> length child_indexes \<and>
                 (\<forall>c<length child_indexes. p < length (child_indexes ! c)) \<longrightarrow>
                   entry r p m =
                     (\<Prod>c<length child_indexes.
                        child_entry (child_indexes ! c) (likelihoods ! c) p m)))"
proof -
  let ?ci = child_indexes and ?lks = likelihoods
  let ?C = "length child_indexes"
  let ?g = "combined ?ci ?lks (entry result) ?C"
  from sum_input_likelihoods_char [OF agrees_entry [OF assms(1)], of ?ci ?lks] assms(2)
  obtain r where r: "sum_input_likelihoods ?ci result ?lks = Inr r"
    and ag: "agrees r (shape0 result) (shape1 result) ?g"
    by auto
  have untouched: "?g p m = entry result p m" if "\<forall>c<?C. length (?ci ! c) \<le> p" for p m
    using that by (rule combined_untouched)
  have covered: "?g p m = (\<Prod>c<?C. child_entry (?ci ! c) (?lks ! c) p m)"
    if "1 \<le> ?C" and "\<forall>c<?C. p < length (?ci ! c)" for p m
  proof -
    from that(1) obtain n where n: "?C = Suc n" by (cases ?C) simp_all
    with that(2) have "\<forall>c\<le>n. p < length (?ci ! c)" by simp
    from combined_product [OF this] show ?thesis unfolding n .
  qed
  from ag have "wf_array2 r" "shape0 r = shape0 result" "shape1 r = shape1 result"
    and "\<forall>p<shape0 result. \<forall>m<shape1 result. entry r p m = ?g p m"
    by (simp_all add: agrees_def)
  with r untouched covered show ?thesis by simp
qed

theorem sum_input_likelihoods_unchecked_witness:
  "wf_array2 \<lparr>shape1 = 1, rows = [[5], [6], [4 :: real]]\<rparr> \<and>
   sum_input_likelihoods [[0], [0, 1]] \<lparr>shape1 = 1, rows = [[5], [6], [4 :: real]]\<rparr>
     [\<lparr>shape1 = 2, rows = [[7, 8]]\<rparr>, \<lparr>shape1 = 1, rows = [[2], [3]]\<rparr>,
      \<lparr>shape1 = 3, rows = [[1, 1, 1]]\<rparr>]
   = Inr \<lparr>shape1 = 1, rows = [[7 * 2], [6 * 3], [4]]\<rparr> \<and>
   entry \<lparr>shape1 = 1, rows = [[7 * 2], [6 * 3], [4 :: real]]\<rparr> 2 0
     = entry \<lparr>shape1 = 1, rows = [[5], [6], [4 :: real]]\<rparr> 2 0 \<and>
   entry \<lparr>shape1 = 1, rows = [[7 * 2], [6 * 3], [4 :: real]]\<rparr> 0 0
     = (\<Prod>c<length [[0], [0, 1 :: int]].
          child_entry ([[0], [0, 1]] ! c)
            ([\<lparr>shape1 = 2, rows = [[7, 8]]\<rparr>, \<lparr>shape1 = 1, rows = [[2], [3]]\<rparr>,
              \<lparr>shape1 = 3, rows = [[1, 1, 1]]\<rparr>] ! c) 0 0) \<and>
   entry \<lparr>shape1 = 1, rows = [[7 * 2], [6 * 3], [4 :: real]]\<rparr> 1 0
     = combined [[0], [0, 1]]
         [\<lparr>shape1 = 2, rows = [[7, 8]]\<rparr>, \<lparr>shape1 = 1, rows = [[2], [3]]\<rparr>,
          \<lparr>shape1 = 3, rows = [[1, 1, 1]]\<rparr>]
         (entry \<lparr>shape1 = 1, rows = [[5], [6], [4 :: real]]\<rparr>) (length [[0], [0, 1 :: int]]) 1 0"
proof -
  let ?ci = "[[0], [0, 1 :: int]]"
  let ?res = "\<lparr>shape1 = 1, rows = [[5], [6], [4 :: real]]\<rparr>"
  let ?lks = "[\<lparr>shape1 = 2, rows = [[7, 8 :: real]]\<rparr>, \<lparr>shape1 = 1, rows = [[2], [3]]\<rparr>,
               \<lparr>shape1 = 3, rows = [[1, 1, 1]]\<rparr>]"
  let ?out = "\<lparr>shape1 = 1, rows = [[7 * 2], [6 * 3], [4 :: real]]\<rparr>"
  have h1: "wf_array2 ?res" by (simp add: wf_array2_def)
  have h2: "accesses_in_range ?ci ?lks (shape0 ?res) (shape1 ?res)"
    by (simp add: accesses_in_range_def pass_in_range_def valid_index_def shape0_def
        less_Suc_eq)
  have ev: "sum_input_likelihoods ?ci ?res ?lks = Inr ?out" by code_simp
  have P: "shape0 ?res = 3" and K: "shape1 ?res = 1" by (simp_all add: shape0_def)
  from sum_input_likelihoods_unchecked [OF h1 h2]
  have all: "\<forall>p<3. \<forall>m<1.
      entry ?out p m = combined ?ci ?lks (entry ?res) (length ?ci) p m \<and>
      ((\<forall>c<length ?ci. length (?ci ! c) \<le> p) \<longrightarrow> entry ?out p m = entry ?res p m) \<and>
      (1 \<le> length ?ci \<and> (\<forall>c<length ?ci. p < length (?ci ! c)) \<longrightarrow>
         entry ?out p m = (\<Prod>c<length ?ci. child_entry (?ci ! c) (?lks ! c) p m))"
    unfolding ev P K by blast
  have far: "\<forall>c<length ?ci. length (?ci ! c) \<le> 2" by (simp add: less_Suc_eq)
  have near: "1 \<le> length ?ci \<and> (\<forall>c<length ?ci. 0 < length (?ci ! c))"
    by (simp add: less_Suc_eq)
  note at = all [THEN spec, THEN mp, THEN spec, THEN mp]
  have "entry ?out 1 0 = combined ?ci ?lks (entry ?res) (length ?ci) 1 0"
    by (rule at [THEN conjunct1]) simp_all
  moreover have "entry ?out 2 0 = entry ?res 2 0"
    by (rule at [THEN conjunct2, THEN conjunct1, THEN mp, OF _ _ far]) simp_all
  moreover
  have "entry ?out 0 0 = (\<Prod>c<length ?ci. child_entry (?ci ! c) (?lks ! c) 0 0)"
    by (rule at [THEN conjunct2, THEN conjunct2, THEN mp, OF _ _ near]) simp_all
  ultimately show ?thesis using h1 ev by blast
qed

subsection \<open>The root aggregator is a dot product\<close>

lemma step1_loop:
  fixes input_likelihoods mprobs :: "'a::semiring_0 list"
  assumes "n \<le> length mprobs" "n \<le> length input_likelihoods"
  shows "for_range [0..<n] (\<lambda>i res.
       bind (getitem1 input_likelihoods (int i)) (\<lambda>x.
       bind (getitem1 mprobs (int i)) (\<lambda>y. Inr (res + x * y)))) 0
     = Inr (\<Sum>i<n. input_likelihoods ! i * mprobs ! i)"
  using assms
proof (induction n)
  case 0
  show ?case by simp
next
  case (Suc n)
  then show ?case by (simp add: for_range_upt_Suc del: upt_Suc)
qed

lemma step1_prefix:
  fixes input_likelihoods mprobs :: "'a::semiring_0 list"
  assumes "length mprobs \<le> length input_likelihoods"
  shows "get_total_log_likelihood_step1 input_likelihoods mprobs
     = Inr (\<Sum>i<length mprobs. input_likelihoods ! i * mprobs ! i)"
  unfolding get_total_log_likelihood_step1_def
  by (simp only: step1_loop [OF le_refl assms])

text \<open>
  C3. For a root-likelihood row and a motif-probability vector of the same length \<open>K\<close>, the
  root aggregator returns the dot product \<open>\<Sum>m<K. input_likelihoods[m] * mprobs[m]\<close>. Its
  only inputs are the row of one pattern and \<open>mprobs\<close>, so no other pattern is read.
\<close>

theorem get_total_log_likelihood_step1_dot:
  fixes input_likelihoods mprobs :: "'a::semiring_0 list"
  assumes "length input_likelihoods = K" and "length mprobs = K"
  shows "get_total_log_likelihood_step1 input_likelihoods mprobs
     = Inr (\<Sum>m<K. input_likelihoods ! m * mprobs ! m)"
  using step1_prefix [of mprobs input_likelihoods] assms by simp

theorem get_total_log_likelihood_step1_dot_witness:
  "length [2, 3 :: real] = 2 \<and> length [5, 7 :: real] = 2 \<and>
   get_total_log_likelihood_step1 [2, 3 :: real] [5, 7] = Inr 31"
  using get_total_log_likelihood_step1_dot [of "[2, 3 :: real]" 2 "[5, 7]"]
  by (simp add: lessThan_Suc numeral_2_eq_2)

text \<open>
  C10. The loop runs over the positions of \<open>mprobs\<close> only: when \<open>input_likelihoods\<close> is
  longer, its trailing entries are ignored without an error, and the result is the dot
  product of its first \<open>len(mprobs)\<close> entries with \<open>mprobs\<close>.
\<close>

theorem get_total_log_likelihood_step1_ignores_tail:
  fixes input_likelihoods mprobs :: "'a::semiring_0 list"
  assumes "length mprobs < length input_likelihoods"
  shows "get_total_log_likelihood_step1 input_likelihoods mprobs
           = Inr (\<Sum>i<length mprobs. take (length mprobs) input_likelihoods ! i * mprobs ! i)
         \<and> get_total_log_likelihood_step1 input_likelihoods mprobs
           = get_total_log_likelihood_step1 (take (length mprobs) input_likelihoods) mprobs"
  using assms by (simp add: step1_prefix)

theorem get_total_log_likelihood_step1_ignores_tail_witness:
  "length [5, 7 :: real] < length [2, 3, 1000 :: real] \<and>
   get_total_log_likelihood_step1 [2, 3, 1000 :: real] [5, 7] = Inr 31 \<and>
   get_total_log_likelihood_step1 [2, 3, 1000 :: real] [5, 7]
     = get_total_log_likelihood_step1 [2, 3] [5, 7]"
  using get_total_log_likelihood_step1_ignores_tail [of "[5, 7 :: real]" "[2, 3, 1000]"]
  by (simp add: lessThan_Suc numeral_2_eq_2 get_total_log_likelihood_step1_def)

subsection \<open>Arithmetic with infinities\<close>

lemma fadd_commute: "fadd x y = fadd y x"
  by (cases x; cases y) simp_all

lemma fadd_assoc: "fadd (fadd x y) z = fadd x (fadd y z)"
  by (cases x; cases y; cases z) simp_all

lemma fadd_NaN_right [simp]: "fadd x NaN = NaN"
  by (cases x) simp_all

lemma fadd_Finite_NegInf [simp]: "fadd (Finite a) NegInf = NegInf"
  by simp

lemma fscale_Finite [simp]: "fscale (Finite a) c = Finite (a * c)"
  by (simp add: fscale_def)

lemma flog_pos [simp]: "0 < a \<Longrightarrow> flog (Finite a) = Finite (ln a)"
  by (simp add: flog_def)

lemma flog_zero [simp]: "flog (Finite 0) = NegInf"
  by (simp add: flog_def)

lemma fscale_NegInf_pos [simp]: "0 < c \<Longrightarrow> fscale NegInf c = NegInf"
  by (simp add: fscale_def)

lemma log_sum_loop:
  assumes "n \<le> length counts" "n \<le> length lhs"
  shows "for_range [0..<n] (\<lambda>i res.
        bind (getitem1 (map flog lhs) (int i)) (\<lambda>x.
        bind (getitem1 counts (int i)) (\<lambda>c. Inr (fadd res (fscale x c))))) (Finite 0)
     = Inr (foldl fadd (Finite 0) (log_terms lhs counts n))"
  using assms
proof (induction n)
  case 0
  show ?case by (simp add: log_terms_def)
next
  case (Suc n)
  then show ?case by (simp add: for_range_upt_Suc log_terms_def del: upt_Suc) (simp)
qed

lemma get_log_sum_across_sites_fold:
  assumes "length counts \<le> length lhs"
  shows "get_log_sum_across_sites lhs counts
     = Inr (foldl fadd (Finite 0) (log_terms lhs counts (length counts)))"
  unfolding get_log_sum_across_sites_def Let_def
  by (simp only: log_sum_loop [OF le_refl assms])

lemma foldl_fadd_Finite:
  "foldl fadd (Finite a) (map Finite xs) = Finite (a + sum_list xs)"
  by (induction xs arbitrary: a) (simp_all add: add.assoc)

lemma foldl_fadd_shift:
  "foldl fadd (fadd a d) xs = fadd (foldl fadd a xs) d"
proof (induction xs arbitrary: a)
  case Nil
  show ?case by simp
next
  case (Cons x xs)
  have "fadd (fadd a d) x = fadd (fadd a x) d"
    by (simp add: fadd_assoc fadd_commute [of d x])
  then show ?case using Cons.IH [of "fadd a x"] by simp
qed

lemma foldl_fadd_update:
  assumes "p < length xs" and "xs ! p = Finite u"
  shows "foldl fadd a (xs[p := Finite (u + d)]) = fadd (foldl fadd a xs) (Finite d)"
  using assms
proof (induction xs arbitrary: a p)
  case Nil
  then show ?case by simp
next
  case (Cons x xs)
  show ?case
  proof (cases p)
    case 0
    with Cons.prems have x: "x = Finite u" by simp
    have "fadd a (Finite (u + d)) = fadd (fadd a x) (Finite d)"
      by (simp add: x fadd_assoc)
    then show ?thesis using 0 by (simp add: foldl_fadd_shift)
  next
    case (Suc q)
    with Cons.prems have "q < length xs" "xs ! q = Finite u" by simp_all
    from Cons.IH [OF this] show ?thesis using Suc by simp
  qed
qed

lemma foldl_fadd_NegInf_absorb:
  assumes "\<forall>x\<in>set xs. x = NegInf \<or> (\<exists>r. x = Finite r)"
  shows "foldl fadd NegInf xs = NegInf"
  using assms by (induction xs) auto

lemma foldl_fadd_NegInf:
  assumes "\<forall>x\<in>set xs. x = NegInf \<or> (\<exists>r. x = Finite r)" and "NegInf \<in> set xs"
  shows "foldl fadd (Finite a) xs = NegInf"
  using assms
proof (induction xs arbitrary: a)
  case Nil
  then show ?case by simp
next
  case (Cons x xs)
  show ?case
  proof (cases "x = NegInf")
    case True
    then show ?thesis using Cons.prems(1) by (simp add: foldl_fadd_NegInf_absorb)
  next
    case False
    with Cons.prems obtain r where "x = Finite r" and "NegInf \<in> set xs" by auto
    then show ?thesis using Cons.IH [of "a + r"] Cons.prems(1) by simp
  qed
qed

subsection \<open>The log aggregator\<close>

lemma sum_list_map_upt: "sum_list (map f [0..<n]) = (\<Sum>i<n. f i)"
  by (simp add: interv_sum_list_conv_sum_set_nat atLeast0LessThan)

text \<open>
  C2. For arrays \<open>lhs\<close> and \<open>counts\<close> of the same length with every \<open>lhs[i]\<close> positive, the
  log aggregator returns the sum over the patterns of \<open>ln(lhs[i]) * counts[i]\<close>, with the
  natural logarithm.
\<close>

theorem get_log_sum_across_sites_sum:
  assumes "length xs = length counts" and "\<forall>x\<in>set xs. 0 < x"
  shows "get_log_sum_across_sites (map Finite xs) counts
       = Inr (Finite (\<Sum>i<length counts. ln (xs ! i) * counts ! i))"
proof -
  let ?g = "\<lambda>i. ln (xs ! i) * counts ! i"
  have ts: "log_terms (map Finite xs) counts (length counts)
      = map Finite (map ?g [0..<length counts])"
    using assms by (simp add: log_terms_def)
  have "get_log_sum_across_sites (map Finite xs) counts
      = Inr (foldl fadd (Finite 0) (map Finite (map ?g [0..<length counts])))"
    using assms(1) by (simp only: get_log_sum_across_sites_fold length_map le_refl ts)
  also have "\<dots> = Inr (Finite (0 + sum_list (map ?g [0..<length counts])))"
    by (simp only: foldl_fadd_Finite)
  also have "\<dots> = Inr (Finite (\<Sum>i<length counts. ?g i))"
    by (simp only: sum_list_map_upt add_0)
  finally show ?thesis .
qed

theorem get_log_sum_across_sites_sum_witness:
  "length [2, 3 :: real] = length [10, 1 :: real] \<and>
   get_log_sum_across_sites [Finite 2, Finite 3] [10, 1] = Inr (Finite (ln 2 * 10 + ln 3))"
  using get_log_sum_across_sites_sum [of "[2, 3]" "[10, 1]"]
  by (simp add: lessThan_Suc numeral_2_eq_2)

text \<open>
  C4. When one total \<open>lhs[p]\<close> is zero with a positive count and every other total is
  positive, no error is raised: the term of that pattern is \<open>-inf\<close>, the call returns, and
  what it returns is \<open>-inf\<close>.
\<close>

theorem get_log_sum_across_sites_zero_total:
  assumes "length xs = length counts" and "p < length counts"
    and "xs ! p = 0" and "0 < counts ! p"
    and "\<forall>i<length counts. i \<noteq> p \<longrightarrow> 0 < xs ! i"
  shows "fscale (flog (Finite (xs ! p))) (counts ! p) = NegInf \<and>
         get_log_sum_across_sites (map Finite xs) counts = Inr NegInf"
proof -
  let ?ts = "log_terms (map Finite xs) counts (length counts)"
  have neginf: "fscale (flog (Finite (xs ! p))) (counts ! p) = NegInf"
    using assms(3,4) by simp
  have nth: "?ts ! i = (if i = p then NegInf else Finite (ln (xs ! i) * counts ! i))"
    if "i < length counts" for i
    using that assms by (simp add: log_terms_def)
  have len: "length ?ts = length counts" by (simp add: log_terms_def)
  have "\<forall>t\<in>set ?ts. t = NegInf \<or> (\<exists>r. t = Finite r)"
    using nth len by (metis in_set_conv_nth)
  moreover have "NegInf \<in> set ?ts"
    using nth [OF assms(2)] len assms(2) by (metis nth_mem)
  ultimately have "foldl fadd (Finite 0) ?ts = NegInf"
    by (rule foldl_fadd_NegInf)
  then show ?thesis using assms(1) neginf by (simp add: get_log_sum_across_sites_fold)
qed

theorem get_log_sum_across_sites_zero_total_witness:
  "length [1, 0 :: real] = length [3, 10 :: real] \<and> 1 < length [3, 10 :: real] \<and>
   [1, 0 :: real] ! 1 = 0 \<and> 0 < [3, 10 :: real] ! 1 \<and>
   fscale (flog (Finite ([1, 0] ! 1))) ([3, 10] ! 1) = NegInf \<and>
   get_log_sum_across_sites [Finite 1, Finite 0] [3, 10] = Inr NegInf"
  using get_log_sum_across_sites_zero_total [of "[1, 0]" "[3, 10]" 1]
  by (simp add: less_Suc_eq)

lemma log_terms_positive:
  assumes "length xs = length counts" and "\<forall>y\<in>set xs. 0 < y"
  shows "foldl fadd (Finite 0) (log_terms (map Finite xs) counts (length counts))
       = Finite (\<Sum>i<length counts. ln (xs ! i) * counts ! i)"
proof -
  let ?g = "\<lambda>i. ln (xs ! i) * counts ! i"
  have "log_terms (map Finite xs) counts (length counts)
      = map Finite (map ?g [0..<length counts])"
    using assms by (simp add: log_terms_def)
  then have "foldl fadd (Finite 0) (log_terms (map Finite xs) counts (length counts))
      = Finite (0 + sum_list (map ?g [0..<length counts]))"
    by (simp only: foldl_fadd_Finite)
  then show ?thesis by (simp only: sum_list_map_upt add_0)
qed

text \<open>
  C8. The result is linear in the counts: for a pattern \<open>p\<close> with \<open>lhs[p]\<close> positive and any
  factor \<open>f\<close>, replacing \<open>counts[p]\<close> by \<open>f * counts[p]\<close> changes the returned sum by
  \<open>(f - 1) * counts[p] * ln(lhs[p])\<close>. The sum returned before the change is the sum of the
  terms \<open>log(lhs[i]) * counts[i]\<close> in the order of the loop; when every total is positive it
  is the finite number \<open>\<Sum>i. ln(lhs[i]) * counts[i]\<close>, and the sum returned after the change is
  that number plus \<open>(f - 1) * counts[p] * ln(lhs[p])\<close>.
\<close>

theorem get_log_sum_across_sites_scale_count:
  assumes "length lhs = length counts" and "p < length counts"
    and "lhs ! p = Finite x" and "0 < x"
  shows "get_log_sum_across_sites lhs counts
           = Inr (foldl fadd (Finite 0) (log_terms lhs counts (length counts))) \<and>
         get_log_sum_across_sites lhs (counts[p := f * counts ! p])
           = Inr (fadd (foldl fadd (Finite 0) (log_terms lhs counts (length counts)))
                    (Finite ((f - 1) * counts ! p * ln x))) \<and>
         (\<forall>xs. lhs = map Finite xs \<and> (\<forall>y\<in>set xs. 0 < y) \<longrightarrow>
            get_log_sum_across_sites lhs counts
              = Inr (Finite (\<Sum>i<length counts. ln (xs ! i) * counts ! i)) \<and>
            get_log_sum_across_sites lhs (counts[p := f * counts ! p])
              = Inr (Finite ((\<Sum>i<length counts. ln (xs ! i) * counts ! i)
                             + (f - 1) * counts ! p * ln x)))"
proof -
  let ?n = "length counts"
  let ?ts = "log_terms lhs counts ?n"
  let ?u = "ln x * counts ! p"
  let ?d = "(f - 1) * counts ! p * ln x"
  let ?v = "foldl fadd (Finite 0) ?ts"
  have p: "p < length ?ts" and tp: "?ts ! p = Finite ?u"
    using assms by (simp_all add: log_terms_def)
  have "log_terms lhs (counts[p := f * counts ! p]) ?n = ?ts[p := Finite (?u + ?d)]"
  proof (rule nth_equalityI)
    show "length (log_terms lhs (counts[p := f * counts ! p]) ?n)
        = length (?ts[p := Finite (?u + ?d)])"
      by (simp add: log_terms_def)
  next
    fix i
    assume "i < length (log_terms lhs (counts[p := f * counts ! p]) ?n)"
    then have i: "i < ?n" by (simp add: log_terms_def)
    show "log_terms lhs (counts[p := f * counts ! p]) ?n ! i = ?ts[p := Finite (?u + ?d)] ! i"
    proof (cases "i = p")
      case True
      have "ln x * (f * counts ! p) = ?u + ?d" by (simp add: algebra_simps)
      then show ?thesis using True i assms by (simp add: log_terms_def)
    next
      case False
      then show ?thesis using i by (simp add: log_terms_def)
    qed
  qed
  then have "foldl fadd (Finite 0) (log_terms lhs (counts[p := f * counts ! p]) ?n)
           = fadd ?v (Finite ?d)"
    using foldl_fadd_update [OF p tp] by simp
  then have new: "get_log_sum_across_sites lhs (counts[p := f * counts ! p])
           = Inr (fadd ?v (Finite ?d))"
    using assms(1) get_log_sum_across_sites_fold [of "counts[p := f * counts ! p]" lhs]
    by simp
  have old: "get_log_sum_across_sites lhs counts = Inr ?v"
    using assms(1) by (simp add: get_log_sum_across_sites_fold)
  have fin: "?v = Finite (\<Sum>i<?n. ln (xs ! i) * counts ! i)"
    if "lhs = map Finite xs" and "\<forall>y\<in>set xs. 0 < y" for xs
  proof -
    from that(1) assms(1) have "length xs = ?n" by simp
    from log_terms_positive [OF this that(2)] show ?thesis by (simp only: that(1))
  qed
  show ?thesis
  proof (intro conjI allI impI)
    show "get_log_sum_across_sites lhs counts = Inr ?v" by (rule old)
    show "get_log_sum_across_sites lhs (counts[p := f * counts ! p])
        = Inr (fadd ?v (Finite ?d))" by (rule new)
  next
    fix xs
    assume xs: "lhs = map Finite xs \<and> (\<forall>y\<in>set xs. 0 < y)"
    then have v: "?v = Finite (\<Sum>i<?n. ln (xs ! i) * counts ! i)" using fin by blast
    show "get_log_sum_across_sites lhs counts
        = Inr (Finite (\<Sum>i<?n. ln (xs ! i) * counts ! i))"
      by (simp only: old v)
    show "get_log_sum_across_sites lhs (counts[p := f * counts ! p])
        = Inr (Finite ((\<Sum>i<?n. ln (xs ! i) * counts ! i) + ?d))"
      by (simp only: new v fadd.simps)
  qed
qed

theorem get_log_sum_across_sites_scale_count_witness:
  "length [Finite 2, Finite 3] = length [10, 1 :: real] \<and> 0 < length [10, 1 :: real] \<and>
   [Finite 2, Finite 3] ! 0 = Finite 2 \<and> (0::real) < 2 \<and>
   get_log_sum_across_sites [Finite 2, Finite 3] [10, 1]
     = Inr (Finite (ln 2 * 10 + ln 3 * 1)) \<and>
   get_log_sum_across_sites [Finite 2, Finite 3] ([10, 1][0 := 3 * [10, 1] ! 0])
     = Inr (Finite (ln 2 * 10 + ln 3 * 1 + (3 - 1) * 10 * ln 2))"
proof -
  let ?lhs = "[Finite 2, Finite 3]"
  let ?counts = "[10, 1 :: real]"
  have h1: "length ?lhs = length ?counts" and h2: "0 < length ?counts"
    and h3: "?lhs ! 0 = Finite 2" and h4: "(0::real) < 2"
    by simp_all
  have xs: "?lhs = map Finite [2, 3] \<and> (\<forall>y\<in>set [2, 3 :: real]. 0 < y)" by simp
  have S: "(\<Sum>i<length ?counts. ln ([2, 3 :: real] ! i) * ?counts ! i) = ln 2 * 10 + ln 3 * 1"
    by (simp add: lessThan_Suc numeral_2_eq_2)
  have "get_log_sum_across_sites ?lhs ?counts
          = Inr (Finite (\<Sum>i<length ?counts. ln ([2, 3 :: real] ! i) * ?counts ! i)) \<and>
        get_log_sum_across_sites ?lhs (?counts[0 := 3 * ?counts ! 0])
          = Inr (Finite ((\<Sum>i<length ?counts. ln ([2, 3 :: real] ! i) * ?counts ! i)
                         + (3 - 1) * ?counts ! 0 * ln 2))"
    by (rule get_log_sum_across_sites_scale_count [OF h1 h2 h3 h4, of 3,
          THEN conjunct2, THEN conjunct2, rule_format, OF xs])
  then show ?thesis unfolding S using h1 h2 h3 h4 by simp
qed

end
